theory Spec2Isabelle
  imports Main "HOL-Library.Word" "HOL-Library.Sublist"
begin

unbundle bit_operations_syntax

section \<open>The JavaScript values steg\_module.js computes with\<close>

text \<open>
  A JavaScript string is a sequence of 16-bit code units; a pixel byte is an unsigned
  8-bit integer; the numbers the module parses and prints are naturals or \<open>NaN\<close>
  (\<open>None\<close>). The texts that \<open>toString\<close> prints and \<open>parseInt\<close> reads (binary and
  hexadecimal numerals, \<open>NaN\<close>) and the error texts are ASCII and kept as HOL strings.
\<close>

type_synonym jschar = "16 word"
type_synonym jsstring = "jschar list"
type_synonym pixel = "8 word"
type_synonym jsnum = "nat option"

definition js_str :: "string \<Rightarrow> jsstring" where
  "js_str cs = map of_char cs"

text \<open>\<open>const STEG_MAGIC = 'stg'\<close>\<close>

definition STEG_MAGIC :: jsstring where
  "STEG_MAGIC = js_str ''stg''"

text \<open>The NUL character \<open>'\0'\<close>.\<close>

definition NUL :: jschar where
  "NUL = 0"

subsection \<open>Number.prototype.toString(radix) and parseInt(string, radix)\<close>

definition digit_char :: "nat \<Rightarrow> char" where
  "digit_char d = ''0123456789abcdef'' ! d"

function digits_of :: "nat \<Rightarrow> nat \<Rightarrow> string" where
  "digits_of r n =
     (if n < r \<or> r < 2 then [digit_char n]
      else digits_of r (n div r) @ [digit_char (n mod r)])"
  by pat_completeness auto
termination
  by (relation "measure (\<lambda>(r, n). n)") auto

declare digits_of.simps [simp del]

text \<open>\<open>x.toString(radix)\<close> for the radices 2 and 16 the module uses; \<open>NaN\<close> prints as
  \<open>NaN\<close> in every radix. (In \<open>digits_of\<close> the test \<open>r < 2\<close> only makes the recursion
  total; no call has such a radix.)\<close>

definition toString :: "jsnum \<Rightarrow> nat \<Rightarrow> string" where
  "toString x r = (case x of None \<Rightarrow> ''NaN'' | Some n \<Rightarrow> digits_of r n)"

text \<open>The value of a character as a digit (\<open>0-9\<close>, \<open>a-f\<close>, \<open>A-F\<close>), if it is one.\<close>

definition digit_val :: "char \<Rightarrow> nat option" where
  "digit_val c =
     (let n = (of_char c :: nat) in
      if 48 \<le> n \<and> n \<le> 57 then Some (n - 48)
      else if 97 \<le> n \<and> n \<le> 102 then Some (n - 87)
      else if 65 \<le> n \<and> n \<le> 70 then Some (n - 55)
      else None)"

definition is_digit :: "nat \<Rightarrow> char \<Rightarrow> bool" where
  "is_digit r c = (case digit_val c of None \<Rightarrow> False | Some d \<Rightarrow> d < r)"

text \<open>
  \<open>parseInt(str, radix)\<close> reads the longest prefix of digits of the radix and is \<open>NaN\<close>
  when that prefix is empty. The module applies it only to what \<open>toString\<close> printed,
  to pieces of that, and to texts of \<open>0\<close> and \<open>1\<close>, for radix 2 and 16: leading white
  space, a sign and a \<open>0x\<close> prefix never occur and are not modelled.
\<close>

definition parseInt :: "string \<Rightarrow> nat \<Rightarrow> jsnum" where
  "parseInt str r =
     (let ds = takeWhile (is_digit r) str in
      if ds = [] then None
      else Some (foldl (\<lambda>acc c. acc * r + the (digit_val c)) 0 ds))"

text \<open>\<open>String.fromCharCode(x)\<close>: the code unit \<open>x mod 2^16\<close>, and 0 for \<open>NaN\<close>.\<close>

definition fromCharCode :: "jsnum \<Rightarrow> jschar" where
  "fromCharCode x = (case x of None \<Rightarrow> 0 | Some n \<Rightarrow> word_of_nat n)"

text \<open>\<open>str.charCodeAt(i)\<close>: \<open>NaN\<close> out of range.\<close>

definition charCodeAt :: "jsstring \<Rightarrow> nat \<Rightarrow> jsnum" where
  "charCodeAt str i = (if i < length str then Some (unat (str ! i)) else None)"

text \<open>\<open>str.substr(start, len)\<close> with \<open>start \<ge> 0\<close>, and \<open>str.substr(-n)\<close>, the last \<open>n\<close>
  characters (the whole string when it is shorter).\<close>

definition substr :: "'a list \<Rightarrow> nat \<Rightarrow> nat \<Rightarrow> 'a list" where
  "substr str start len = take len (drop start str)"

definition substr_last :: "'a list \<Rightarrow> nat \<Rightarrow> 'a list" where
  "substr_last str n = drop (length str - n) str"

text \<open>\<open>str[j]\<close>: \<open>undefined\<close> (\<open>None\<close>) out of range.\<close>

definition str_at :: "'a list \<Rightarrow> nat \<Rightarrow> 'a option" where
  "str_at str j = (if j < length str then Some (str ! j) else None)"

section \<open>Images and their pixel buffers\<close>

text \<open>
  Modelled from the spec: the image class \<open>Ppm\<close> of \<open>./ppm\<close>, which the module requires,
  is not among the sources. The spec gives an image as opaque metadata (header,
  comments, resolution, color depth) and a pixel buffer, an ordered sequence of
  unsigned 8-bit integers whose length is fixed, and the copy constructor
  \<open>new Ppm(ppm)\<close> as duplicating metadata and pixel buffer into an image that shares no
  storage with the source.

  Buffers live in a store, a list of buffers addressed by position, and an image holds
  the address of its buffer, so that two images can be told to share a buffer or not.
  A buffer of fixed length reads \<open>undefined\<close> (\<open>None\<close>) out of range and ignores a
  write out of range; a stored number is reduced modulo 256.
\<close>

type_synonym addr = nat
type_synonym store = "pixel list list"

record ppm =
  header :: string
  comments :: "string list"
  resolution :: "nat \<times> nat"
  colorDepth :: nat
  pixelBytes :: addr

definition px_length :: "store \<Rightarrow> addr \<Rightarrow> nat" where
  "px_length s a = length (s ! a)"

definition px_get :: "store \<Rightarrow> addr \<Rightarrow> nat \<Rightarrow> pixel option" where
  "px_get s a i = (if i < length (s ! a) then Some (s ! a ! i) else None)"

definition px_set :: "store \<Rightarrow> addr \<Rightarrow> nat \<Rightarrow> 32 word \<Rightarrow> store" where
  "px_set s a i v = (if i < length (s ! a) then s[a := (s ! a)[i := ucast v]] else s)"

text \<open>
  Modelled from the spec: the copy constructor \<open>new Ppm(ppm)\<close> of the missing \<open>./ppm\<close>,
  "a copy-construction operation that duplicates an existing image (metadata + pixel
  buffer)": the copy has the metadata of the source and a new buffer, at a fresh
  address, that holds the same bytes.
\<close>

definition Ppm_copy :: "store \<Rightarrow> ppm \<Rightarrow> store \<times> ppm" where
  "Ppm_copy s p = (s @ [s ! pixelBytes p], p\<lparr>pixelBytes := length s\<rparr>)"

subsection \<open>Arithmetic on what a buffer read gives\<close>

text \<open>\<open>x % 2 === 0\<close>: \<open>undefined % 2\<close> is \<open>NaN\<close>, which is not \<open>0\<close>.\<close>

definition is_even :: "pixel option \<Rightarrow> bool" where
  "is_even x = (case x of None \<Rightarrow> False | Some b \<Rightarrow> unat b mod 2 = 0)"

text \<open>The bitwise operators work on 32-bit integers; \<open>undefined\<close> converts to 0.\<close>

definition to_int32 :: "pixel option \<Rightarrow> 32 word" where
  "to_int32 x = (case x of None \<Rightarrow> 0 | Some b \<Rightarrow> ucast b)"

text \<open>\<open>((1<<(8))-1)<<1\<close>\<close>

definition clear_mask :: "32 word" where
  "clear_mask = push_bit 1 (push_bit 8 1 - 1)"

section \<open>Reading a character from the least significant bits\<close>

text \<open>
  The body of the inner loop of lines 78-86 and 159-168:
  \<open>binaryNum += (pixelBytes[counter] % 2 === 0) ? "0" : "1"; counter++\<close>.
\<close>

definition read_step :: "store \<Rightarrow> addr \<Rightarrow> string \<times> nat \<Rightarrow> string \<times> nat" where
  "read_step s a = (\<lambda>(binaryNum, counter).
     (binaryNum @ [if is_even (px_get s a counter) then CHR ''0'' else CHR ''1''],
      counter + 1))"

text \<open>
  \<open>for (var k = 0; k < hexa.length; k += 2)
       chAscii += String.fromCharCode(parseInt(hexa.substr(k, 2), 16));\<close>
\<close>

function hex_to_ascii :: "string \<Rightarrow> nat \<Rightarrow> jsstring \<Rightarrow> jsstring" where
  "hex_to_ascii hexa k chAscii =
     (if k < length hexa
      then hex_to_ascii hexa (k + 2)
             (chAscii @ [fromCharCode (parseInt (substr hexa k 2) 16)])
      else chAscii)"
  by pat_completeness auto
termination
  by (relation "measure (\<lambda>(hexa, k, chAscii). length hexa - k)") auto

declare hex_to_ascii.simps [simp del]

text \<open>
  One pass of the decoding that \<open>hide\<close> (lines 77-91) and \<open>unhide\<close> (lines 158-173)
  both contain: eight bits are read from eight pixel bytes, the binary numeral is
  parsed, printed in hexadecimal and turned into characters. The result is the text
  \<open>chAscii\<close> and the advanced \<open>counter\<close>.
\<close>

definition decode_char :: "store \<Rightarrow> addr \<Rightarrow> nat \<Rightarrow> jsstring \<times> nat" where
  "decode_char s a counter =
     (let (binaryNum, counter') = (read_step s a ^^ 8) ([], counter);
          hexa = toString (parseInt binaryNum 2) 16
      in (hex_to_ascii hexa 0 [], counter'))"

section \<open>hide\<close>

text \<open>Lines 76-93, the loop \<open>for (let i = 0; i < 3; i++)\<close>: \<open>message += chAscii\<close>.\<close>

definition stg_step :: "store \<Rightarrow> addr \<Rightarrow> jsstring \<times> nat \<Rightarrow> jsstring \<times> nat" where
  "stg_step s a = (\<lambda>(message, counter).
     let (chAscii, counter') = decode_char s a counter in (message @ chAscii, counter'))"

definition stg_control :: "store \<Rightarrow> addr \<Rightarrow> jsstring" where
  "stg_control s a = fst ((stg_step s a ^^ 3) ([], 0))"

text \<open>Lines 104-105: the eight characters \<open>binOfCh\<close> for position \<open>i\<close> of \<open>msg\<close>.\<close>

definition binOfCh :: "jsstring \<Rightarrow> nat \<Rightarrow> string" where
  "binOfCh msg i =
     (let hexOfCh = toString (charCodeAt msg i) 16
      in substr_last (''00000000'' @ toString (parseInt hexOfCh 16) 2) 8)"

text \<open>Lines 108-118, the body of \<open>for (let j = 0; j < 8; j++)\<close>.\<close>

definition write_bit :: "addr \<Rightarrow> string \<Rightarrow> store \<times> nat \<Rightarrow> nat \<Rightarrow> store \<times> nat" where
  "write_bit a bin = (\<lambda>(s, count) j.
     (if is_even (px_get s a count)
      then (if str_at bin j = Some CHR ''1''
            then px_set s a count (to_int32 (px_get s a count) OR 1) else s)
      else (if str_at bin j = Some CHR ''0''
            then px_set s a count (to_int32 (px_get s a count) AND clear_mask) else s),
      count + 1))"

text \<open>Lines 103-122: \<open>while (i < msg.length + 4)\<close>.\<close>

function hide_loop :: "addr \<Rightarrow> jsstring \<Rightarrow> store \<Rightarrow> nat \<Rightarrow> nat \<Rightarrow> store" where
  "hide_loop a msg s i count =
     (if i < length msg + 4
      then (let (s', count') = foldl (write_bit a (binOfCh msg i)) (s, count) [0..<8]
            in hide_loop a msg s' (i + 1) count')
      else s)"
  by pat_completeness auto
termination
  by (relation "measure (\<lambda>(a, msg, s, i, count). length msg + 4 - i)") auto

declare hide_loop.simps [simp del]

text \<open>
  \<open>StegModule.prototype.hide\<close>: the store before the call, the image \<open>this.ppm\<close> and
  the message give the store after the call and either \<open>{ error: ... }\<close> (\<open>Inl\<close>) or
  \<open>{ ppm: ppmOut }\<close> (\<open>Inr\<close>).
\<close>

definition hide :: "store \<Rightarrow> ppm \<Rightarrow> jsstring \<Rightarrow> store \<times> (string + ppm)" where
  "hide s this_ppm msg0 =
     (let (s1, ppmOut) = Ppm_copy s this_ppm;
          msg = STEG_MAGIC @ msg0 @ [NUL];
          a = pixelBytes ppmOut
      in if length msg > px_length s1 a
         then (s1, Inl ''STEG_TOO_BIG error!'')
         else if stg_control s1 a = STEG_MAGIC
         then (s1, Inl ''STEG_MSG: image already contains a hidden message!'')
         else (hide_loop a msg s1 0 0, Inr ppmOut))"

section \<open>unhide\<close>

text \<open>
  Lines 157-179: \<open>while (i < this.ppm.pixelBytes.length && ch !== '\0')\<close>. The variable
  \<open>ch\<close> is declared inside the loop and is \<open>undefined\<close> (\<open>None\<close>) until its first
  assignment.
\<close>

function unhide_loop ::
  "store \<Rightarrow> addr \<Rightarrow> nat \<Rightarrow> nat \<Rightarrow> jsstring \<Rightarrow> jsstring option \<Rightarrow> jsstring \<times> jsstring option"
where
  "unhide_loop s a i counter message ch =
     (if i < px_length s a \<and> ch \<noteq> Some [NUL]
      then (let (chAscii, counter') = decode_char s a counter
            in unhide_loop s a (i + 1) counter' (message @ chAscii) (Some chAscii))
      else (message, ch))"
  by pat_completeness auto
termination
  by (relation "measure (\<lambda>(s, a, i, counter, message, ch). px_length s a - i)") auto

declare unhide_loop.simps [simp del]

text \<open>Lines 187-189: \<open>for (var l = 3; l < message.length; l++) hiddenMessage += message[l]\<close>.\<close>

function copy_from :: "jsstring \<Rightarrow> nat \<Rightarrow> jsstring \<Rightarrow> jsstring" where
  "copy_from message l hiddenMessage =
     (if l < length message
      then copy_from message (l + 1) (hiddenMessage @ [message ! l])
      else hiddenMessage)"
  by pat_completeness auto
termination
  by (relation "measure (\<lambda>(message, l, hiddenMessage). length message - l)") auto

declare copy_from.simps [simp del]

text \<open>
  \<open>StegModule.prototype.unhide\<close>: it writes nothing, so the store is only read; the
  result is \<open>{ error: ... }\<close> (\<open>Inl\<close>) or \<open>{ msg: hiddenMessage }\<close> (\<open>Inr\<close>).
\<close>

definition unhide :: "store \<Rightarrow> ppm \<Rightarrow> string + jsstring" where
  "unhide s this_ppm =
     (let (message, ch) = unhide_loop s (pixelBytes this_ppm) 0 0 [] None
      in if ch \<noteq> Some [NUL]
         then Inl ''STEG_BAD_MSG: bad message!''
         else if str_at message 0 = Some (of_char CHR ''s'')
               \<and> str_at message 1 = Some (of_char CHR ''t'')
               \<and> str_at message 2 = Some (of_char CHR ''g'')
         then Inr (copy_from message 3 [])
         else Inl ''STEG_NO_MSG: image does not have a message!'')"

section \<open>Notions for the properties\<close>

text \<open>
  The read bit-mapping in closed form. \<open>read_byte\<close> is the number
  that one pass of the decoding reads at a counter, a missing pixel byte counting as
  odd, as it does in the code. \<open>payload_byte\<close> follows the words of the
  specification: for a group of 8 consecutive pixel bytes, the least significant bit
  of each (1 if the byte is odd, 0 if even) is concatenated MSB-first into one payload
  byte; \<open>payload\<close> lists the payload bytes of all the groups of 8 that the buffer
  holds.
\<close>

definition digits_val :: "nat \<Rightarrow> string \<Rightarrow> nat" where
  "digits_val r ds = foldl (\<lambda>acc c. acc * r + the (digit_val c)) 0 ds"

definition bit_char :: "bool \<Rightarrow> char" where
  "bit_char b = (if b then CHR ''1'' else CHR ''0'')"

definition bits_val :: "bool list \<Rightarrow> nat" where
  "bits_val bs = foldl (\<lambda>acc b. 2 * acc + of_bool b) 0 bs"

definition read_bits :: "store \<Rightarrow> addr \<Rightarrow> nat \<Rightarrow> bool list" where
  "read_bits s a c = map (\<lambda>j. \<not> is_even (px_get s a (c + j))) [0..<8]"

definition read_byte :: "store \<Rightarrow> addr \<Rightarrow> nat \<Rightarrow> nat" where
  "read_byte s a c = bits_val (read_bits s a c)"

definition payload_byte :: "pixel list \<Rightarrow> nat \<Rightarrow> nat" where
  "payload_byte buf k = bits_val (map (\<lambda>j. odd (unat (buf ! (8 * k + j)))) [0..<8])"

definition payload :: "pixel list \<Rightarrow> nat list" where
  "payload buf = map (payload_byte buf) [0..<length buf div 8]"

text \<open>
  The write bit-mapping in closed form. \<open>set_lsb\<close> and \<open>clear_lsb\<close> are the two
  assignments of lines 110 and 115 on a pixel byte that exists; \<open>embed_px\<close> is what
  one pass of the inner loop of \<open>hide\<close> leaves in a pixel byte for a character of
  \<open>binOfCh\<close>; \<open>embed_from msg i buf\<close> is the buffer after the passes \<open>i\<close>,
  \<open>i + 1\<close>, ... of the loop of lines 103-122.
\<close>

definition set_lsb :: "pixel \<Rightarrow> pixel" where
  "set_lsb b = ucast ((ucast b :: 32 word) OR 1)"

definition clear_lsb :: "pixel \<Rightarrow> pixel" where
  "clear_lsb b = ucast ((ucast b :: 32 word) AND clear_mask)"

definition embed_px :: "char option \<Rightarrow> pixel \<Rightarrow> pixel" where
  "embed_px ch b =
     (if ch = Some CHR ''1'' then set_lsb b else if ch = Some CHR ''0'' then clear_lsb b else b)"

definition embed_from :: "jsstring \<Rightarrow> nat \<Rightarrow> pixel list \<Rightarrow> pixel list" where
  "embed_from msg i buf =
     map (\<lambda>k. if 8 * i \<le> k \<and> k < 8 * (length msg + 4)
              then embed_px (str_at (binOfCh msg (k div 8)) (k mod 8)) (buf ! k)
              else buf ! k) [0..<length buf]"

text \<open>
  The Framed Message of the specification, the \<open>msg\<close> of line 61:
  \<open>STEG_MAGIC + msg + '\0'\<close>.
\<close>

definition framed :: "jsstring \<Rightarrow> jsstring" where
  "framed m = STEG_MAGIC @ m @ [NUL]"

text \<open>The number that the decoding reads at counter \<open>c\<close> of a buffer taken by itself.\<close>

definition buf_byte :: "pixel list \<Rightarrow> nat \<Rightarrow> nat" where
  "buf_byte buf c = read_byte [buf] 0 c"

text \<open>An image with the metadata of a picture of 4 by 4 pixels (48 pixel bytes) and its
  pixel buffer at address \<open>a\<close>, for the concrete instances below. Neither \<open>hide\<close> nor
  \<open>unhide\<close> reads the metadata.\<close>

definition image_at :: "addr \<Rightarrow> ppm" where
  "image_at a =
     \<lparr>header = ''P6'', comments = [], resolution = (4, 4), colorDepth = 255, pixelBytes = a\<rparr>"

section \<open>Numerals printed and parsed\<close>

lemma lt16_cases:
  "d < 16 \<Longrightarrow> d = 0 \<or> d = 1 \<or> d = 2 \<or> d = 3 \<or> d = 4 \<or> d = 5 \<or> d = 6 \<or> d = 7
     \<or> d = 8 \<or> d = 9 \<or> d = 10 \<or> d = 11 \<or> d = 12 \<or> d = 13 \<or> d = 14 \<or> d = (15::nat)"
  by arith

lemma digit_val_digit_char:
  assumes "d < 16"
  shows "digit_val (digit_char d) = Some d"
proof -
  from lt16_cases [OF assms] show ?thesis
    by (elim disjE) (simp_all add: digit_char_def digit_val_def)
qed

lemma is_digit_digit_char: "d < r \<Longrightarrow> r \<le> 16 \<Longrightarrow> is_digit r (digit_char d)"
  by (simp add: is_digit_def digit_val_digit_char)

lemma digits_val_snoc: "digits_val r (ds @ [c]) = digits_val r ds * r + the (digit_val c)"
  by (simp add: digits_val_def)

lemma parseInt_digits:
  "list_all (is_digit r) ds \<Longrightarrow> ds \<noteq> [] \<Longrightarrow> parseInt ds r = Some (digits_val r ds)"
  by (simp add: parseInt_def digits_val_def Ball_set [symmetric] takeWhile_eq_all_conv [THEN iffD2])

lemma digits_of_props:
  "2 \<le> r \<Longrightarrow> r \<le> 16 \<Longrightarrow>
     list_all (is_digit r) (digits_of r n) \<and> digits_of r n \<noteq> [] \<and> digits_val r (digits_of r n) = n"
proof (induction r n rule: digits_of.induct)
  case (1 r n)
  show ?case
  proof (cases "n < r")
    case True
    then have "digits_of r n = [digit_char n]"
      by (subst digits_of.simps) simp
    with True 1(2,3) show ?thesis
      by (simp add: is_digit_digit_char digits_val_def digit_val_digit_char)
  next
    case False
    with 1 have IH: "list_all (is_digit r) (digits_of r (n div r))"
      "digits_val r (digits_of r (n div r)) = n div r" by simp_all
    have d: "n mod r < r" "n mod r < 16" using 1(2,3) by (simp, simp add: less_le_trans [of "n mod r" r 16])
    have eq: "digits_of r n = digits_of r (n div r) @ [digit_char (n mod r)]"
      using False 1(2) by (subst digits_of.simps) simp
    show ?thesis
      using IH d 1(2,3)
      by (simp add: eq digits_val_snoc is_digit_digit_char digit_val_digit_char)
  qed
qed

lemma parseInt_toString:
  "2 \<le> r \<Longrightarrow> r \<le> 16 \<Longrightarrow> parseInt (toString (Some n) r) r = Some n"
  using digits_of_props [of r n] by (simp add: toString_def parseInt_digits)

lemma length_digits_of_16: "v < 256 \<Longrightarrow> length (digits_of 16 v) \<le> 2"
  by (subst digits_of.simps, subst digits_of.simps) (simp add: less_mult_imp_div_less)

lemma hex_to_ascii_byte:
  assumes "v < 256"
  shows "hex_to_ascii (digits_of 16 v) 0 [] = [word_of_nat v]"
proof -
  let ?h = "digits_of 16 v"
  have len: "length ?h \<le> 2" "?h \<noteq> []"
    using assms length_digits_of_16 digits_of_props [of 16 v] by simp_all
  then have pos: "0 < length ?h" by simp
  have "hex_to_ascii ?h 0 [] = [fromCharCode (parseInt (substr ?h 0 2) 16)]"
    using len pos by (subst hex_to_ascii.simps, subst hex_to_ascii.simps) simp
  also have "substr ?h 0 2 = ?h" using len by (simp add: substr_def)
  also have "parseInt ?h 16 = Some v"
    using parseInt_toString [of 16 v] by (simp add: toString_def)
  finally show ?thesis by (simp add: fromCharCode_def)
qed

section \<open>Decoding a character\<close>

lemma upt_8: "[0..<8] = [0, 1, 2, 3, 4, 5, 6, 7]"
  by (simp add: upt_rec)

lemma read_steps:
  "(read_step s a ^^ n) (b, c) =
     (b @ map (\<lambda>j. bit_char (\<not> is_even (px_get s a (c + j)))) [0..<n], c + n)"
  by (induction n) (simp_all add: read_step_def bit_char_def)

lemma is_digit_bit_char: "is_digit 2 (bit_char b)"
  by (simp add: is_digit_def digit_val_def bit_char_def)

lemma digit_val_bit_char: "digit_val (bit_char b) = Some (of_bool b)"
  by (simp add: digit_val_def bit_char_def)

lemma foldl_bit_chars:
  "foldl (\<lambda>acc c. acc * 2 + the (digit_val c)) acc (map bit_char bs)
     = foldl (\<lambda>acc b. 2 * acc + of_bool b) acc bs"
  by (induction bs arbitrary: acc) (simp_all add: digit_val_bit_char mult.commute)

lemma parseInt_bits:
  "bs \<noteq> [] \<Longrightarrow> parseInt (map bit_char bs) 2 = Some (bits_val bs)"
  using parseInt_digits [of 2 "map bit_char bs"]
  by (simp add: list_all_iff is_digit_bit_char digits_val_def bits_val_def foldl_bit_chars)

lemma bits_val_snoc: "bits_val (bs @ [b]) = 2 * bits_val bs + of_bool b"
  by (simp add: bits_val_def)

lemma bits_val_bound: "bits_val bs < 2 ^ length bs"
proof (induction bs rule: rev_induct)
  case Nil
  show ?case by (simp add: bits_val_def)
next
  case (snoc b bs)
  then show ?case by (cases b) (simp_all add: bits_val_snoc)
qed

lemma read_byte_bound: "read_byte s a c < 256"
  using bits_val_bound [of "read_bits s a c"] by (simp add: read_byte_def read_bits_def)

lemma decode_char_eq: "decode_char s a c = ([word_of_nat (read_byte s a c)], c + 8)"
proof -
  have rd: "(read_step s a ^^ 8) ([], c) = (map bit_char (read_bits s a c), c + 8)"
    by (simp add: read_steps read_bits_def comp_def)
  have ne: "read_bits s a c \<noteq> []" by (simp add: read_bits_def)
  show ?thesis
    by (simp add: decode_char_def rd parseInt_bits [OF ne] toString_def
        hex_to_ascii_byte read_byte_bound read_byte_def [symmetric])
qed

lemma read_byte_payload:
  "8 * k + 8 \<le> length (s ! a) \<Longrightarrow> read_byte s a (8 * k) = payload_byte (s ! a) k"
  by (simp add: read_byte_def read_bits_def payload_byte_def px_get_def is_even_def upt_8 even_iff_mod_2_eq_zero)

lemma read_byte_partial:
  "length (s ! a) < c + 8 \<Longrightarrow> odd (read_byte s a c)"
  by (simp add: read_byte_def read_bits_def upt_8 bits_val_def px_get_def is_even_def)

lemma stg_control_eq:
  "stg_control s a = map (\<lambda>c. word_of_nat (read_byte s a c)) [0, 8, 16]"
  by (simp add: stg_control_def stg_step_def numeral_3_eq_3 decode_char_eq)

lemma unat_word16_byte: "v < 256 \<Longrightarrow> unat (word_of_nat v :: 16 word) = v"
  by (simp add: unat_of_nat)

lemma word16_of_byte_inj:
  assumes "v < 256" "w < 256"
  shows "(word_of_nat v :: 16 word) = word_of_nat w \<longleftrightarrow> v = w"
proof
  assume "(word_of_nat v :: 16 word) = word_of_nat w"
  then have "unat (word_of_nat v :: 16 word) = unat (word_of_nat w :: 16 word)" by simp
  with assms show "v = w" by (simp add: unat_word16_byte)
qed simp

lemma word16_of_byte_eq_0: "v < 256 \<Longrightarrow> (word_of_nat v :: 16 word) = 0 \<longleftrightarrow> v = 0"
  using word16_of_byte_inj [of v 0] by simp

section \<open>unhide in closed form\<close>

lemma unhide_loop_stop:
  "\<not> (i < px_length s a \<and> ch \<noteq> Some [NUL]) \<Longrightarrow> unhide_loop s a i c msg ch = (msg, ch)"
  by (subst unhide_loop.simps) auto

lemma unhide_loop_step:
  "i < px_length s a \<Longrightarrow> ch \<noteq> Some [NUL] \<Longrightarrow>
     unhide_loop s a i c msg ch =
       unhide_loop s a (i + 1) (c + 8) (msg @ [word_of_nat (read_byte s a c)])
         (Some [word_of_nat (read_byte s a c)])"
  by (subst unhide_loop.simps) (simp add: decode_char_eq)

lemma unhide_loop_found:
  assumes "ch \<noteq> Some [NUL]" "i \<le> k0" "k0 < px_length s a" "read_byte s a (8 * k0) = 0"
    and "\<forall>k. i \<le> k \<and> k < k0 \<longrightarrow> read_byte s a (8 * k) \<noteq> 0"
  shows "unhide_loop s a i (8 * i) msg ch =
           (msg @ map (\<lambda>k. word_of_nat (read_byte s a (8 * k))) [i..<k0] @ [NUL], Some [NUL])"
  using assms
proof (induction "k0 - i" arbitrary: i msg ch)
  case 0
  then have [simp]: "i = k0" by simp
  have "unhide_loop s a k0 (8 * k0) msg ch =
      unhide_loop s a (k0 + 1) (8 * k0 + 8) (msg @ [NUL]) (Some [NUL])"
    using 0 by (simp add: unhide_loop_step NUL_def)
  also have "\<dots> = (msg @ [NUL], Some [NUL])"
    by (simp add: unhide_loop_stop)
  finally show ?case by simp
next
  case (Suc d)
  then have lt: "i < k0" by simp
  let ?c = "word_of_nat (read_byte s a (8 * i)) :: jschar"
  have nz: "read_byte s a (8 * i) \<noteq> 0" using Suc.prems(5) lt by simp
  then have c: "Some [?c] \<noteq> Some [NUL]"
    by (simp add: NUL_def word16_of_byte_eq_0 read_byte_bound)
  have "unhide_loop s a i (8 * i) msg ch =
      unhide_loop s a (i + 1) (8 * (i + 1)) (msg @ [?c]) (Some [?c])"
    using Suc.prems lt by (simp add: unhide_loop_step add.commute)
  also have "\<dots> = ((msg @ [?c]) @ map (\<lambda>k. word_of_nat (read_byte s a (8 * k))) [i + 1..<k0] @ [NUL],
      Some [NUL])"
    using Suc.hyps(2) Suc.prems lt by (intro Suc.hyps(1) c) simp_all
  finally show ?case using lt by (simp add: upt_conv_Cons)
qed

lemma unhide_loop_none:
  assumes "ch \<noteq> Some [NUL]"
    and "\<forall>k. i \<le> k \<and> k < px_length s a \<longrightarrow> read_byte s a (8 * k) \<noteq> 0"
  shows "snd (unhide_loop s a i (8 * i) msg ch) \<noteq> Some [NUL]"
  using assms
proof (induction "px_length s a - i" arbitrary: i msg ch)
  case 0
  then show ?case by (simp add: unhide_loop_stop)
next
  case (Suc d)
  then have lt: "i < px_length s a" by simp
  let ?c = "word_of_nat (read_byte s a (8 * i)) :: jschar"
  have nz: "read_byte s a (8 * i) \<noteq> 0" using Suc.prems(2) lt by simp
  then have c: "Some [?c] \<noteq> Some [NUL]"
    by (simp add: NUL_def word16_of_byte_eq_0 read_byte_bound)
  have "unhide_loop s a i (8 * i) msg ch =
      unhide_loop s a (i + 1) (8 * (i + 1)) (msg @ [?c]) (Some [?c])"
    using Suc.prems lt by (simp add: unhide_loop_step add.commute)
  moreover have "snd (unhide_loop s a (i + 1) (8 * (i + 1)) (msg @ [?c]) (Some [?c])) \<noteq> Some [NUL]"
    using Suc.hyps(2) Suc.prems(2) by (intro Suc.hyps(1) c) simp_all
  ultimately show ?case by simp
qed

lemma copy_from_eq: "copy_from message l h = h @ drop l message"
proof (induction message l h rule: copy_from.induct)
  case (1 message l h)
  show ?case
  proof (cases "l < length message")
    case True
    with 1 show ?thesis
      by (subst copy_from.simps) (simp add: Cons_nth_drop_Suc)
  next
    case False
    then show ?thesis by (subst copy_from.simps) simp
  qed
qed

lemma takeWhile_first_zero:
  assumes "k0 < m" "f k0 = (0::nat)" "\<forall>k<k0. f k \<noteq> 0"
  shows "takeWhile (\<lambda>v. v \<noteq> 0) (map f [0..<m]) = map f [0..<k0]"
proof -
  define d where "d = m - Suc k0"
  have m: "m = k0 + Suc d"
    using assms(1) by (simp add: d_def)
  have "[0..<k0 + Suc d] = [0..<k0] @ [k0..<k0 + Suc d]"
    by (rule upt_add_eq_append) simp
  also have "[k0..<k0 + Suc d] = k0 # [Suc k0..<k0 + Suc d]"
    by (rule upt_conv_Cons) simp
  finally have "[0..<m] = [0..<k0] @ k0 # [Suc k0..<m]"
    by (simp only: m)
  then have "takeWhile (\<lambda>v. v \<noteq> 0) (map f [0..<m])
      = takeWhile (\<lambda>v. v \<noteq> 0) (map f [0..<k0] @ f k0 # map f [Suc k0..<m])"
    by simp
  also have "\<dots> = map f [0..<k0] @ takeWhile (\<lambda>v. v \<noteq> 0) (f k0 # map f [Suc k0..<m])"
    using assms(3) by (intro takeWhile_append2) auto
  finally show ?thesis
    using assms(2) by simp
qed

lemma payload_byte_bound: "payload_byte buf k < 256"
  using bits_val_bound [of "map (\<lambda>j. odd (unat (buf ! (8 * k + j)))) [0..<8]"]
  by (simp add: payload_byte_def)

lemma stg_check:
  assumes "\<forall>v\<in>set pre. v < 256"
  shows "(str_at (map word_of_nat pre @ [NUL]) 0 = Some (of_char CHR ''s'' :: jschar)
          \<and> str_at (map word_of_nat pre @ [NUL]) 1 = Some (of_char CHR ''t'')
          \<and> str_at (map word_of_nat pre @ [NUL]) 2 = Some (of_char CHR ''g''))
         \<longleftrightarrow> prefix [115, 116, 103] pre"
proof (cases pre)
  case Nil
  then show ?thesis by (simp add: str_at_def NUL_def)
next
  case (Cons x r1)
  note c1 = this
  show ?thesis
  proof (cases r1)
    case Nil
    with c1 show ?thesis by (simp add: str_at_def NUL_def)
  next
    case (Cons y r2)
    note c2 = this
    show ?thesis
    proof (cases r2)
      case Nil
      with c1 c2 show ?thesis by (simp add: str_at_def NUL_def)
    next
      case (Cons z r3)
      with c1 c2 assms have "x < 256" "y < 256" "z < 256" by simp_all
      then show ?thesis
        using word16_of_byte_inj [of x 115] word16_of_byte_inj [of y 116]
          word16_of_byte_inj [of z 103] c1 c2 Cons
        by (simp add: str_at_def)
    qed
  qed
qed

lemma unhide_eq:
  "unhide s p =
     (let pl = payload (s ! pixelBytes p) in
      if 0 \<notin> set pl then Inl ''STEG_BAD_MSG: bad message!''
      else let pre = takeWhile (\<lambda>v. v \<noteq> 0) pl in
        if prefix [115, 116, 103] pre then Inr (map word_of_nat (drop 3 pre) @ [NUL])
        else Inl ''STEG_NO_MSG: image does not have a message!'')"
proof -
  define a where "a = pixelBytes p"
  define buf where "buf = s ! a"
  define n where "n = length buf"
  have full: "read_byte s a (8 * k) = payload_byte buf k" if "k < n div 8" for k
    using that by (simp add: read_byte_payload buf_def n_def)
  have part: "read_byte s a (8 * k) \<noteq> 0" if "\<not> k < n div 8" for k
  proof -
    have "length (s ! a) < 8 * k + 8" using that by (simp add: n_def buf_def)
    then have "odd (read_byte s a (8 * k))" by (rule read_byte_partial)
    then show ?thesis by (auto elim: oddE)
  qed
  show ?thesis
  proof (cases "0 \<in> set (payload buf)")
    case False
    have "read_byte s a (8 * k) \<noteq> 0" for k
    proof (cases "k < n div 8")
      case True
      then have "payload_byte buf k \<in> set (payload buf)" by (simp add: payload_def n_def)
      with False have "payload_byte buf k \<noteq> 0" by metis
      with True show ?thesis by (simp add: full)
    next
      case False
      then show ?thesis by (rule part)
    qed
    then have "snd (unhide_loop s a 0 (8 * 0) [] None) \<noteq> Some [NUL]"
      by (intro unhide_loop_none) simp_all
    then show ?thesis
      using False
      by (cases "unhide_loop s a 0 0 [] None")
        (simp add: unhide_def a_def [symmetric] buf_def [symmetric])
  next
    case True
    then have "\<exists>k. k < n div 8 \<and> payload_byte buf k = 0"
      by (auto simp add: payload_def n_def)
    then obtain k0 where k0: "k0 < n div 8" "payload_byte buf k0 = 0"
      and least: "\<forall>k<k0. \<not> (k < n div 8 \<and> payload_byte buf k = 0)"
      using exists_least_iff [of "\<lambda>k. k < n div 8 \<and> payload_byte buf k = 0"] by blast
    have k0n: "k0 < px_length s a" using k0(1) by (simp add: px_length_def n_def buf_def)
    have before: "\<forall>k<k0. payload_byte buf k \<noteq> 0" using least k0(1) by auto
    define pre where "pre = map (payload_byte buf) [0..<k0]"
    have tw: "takeWhile (\<lambda>v. v \<noteq> 0) (payload buf) = pre"
      unfolding payload_def pre_def n_def [symmetric]
      using k0 before by (intro takeWhile_first_zero) simp_all
    have rb: "map (\<lambda>k. word_of_nat (read_byte s a (8 * k)) :: jschar) [0..<k0] = map word_of_nat pre"
      using k0(1) by (simp add: pre_def full)
    have "unhide_loop s a 0 (8 * 0) [] None =
        ([] @ map (\<lambda>k. word_of_nat (read_byte s a (8 * k))) [0..<k0] @ [NUL], Some [NUL])"
      using k0 k0n before by (intro unhide_loop_found) (simp_all add: full)
    then have loop: "unhide_loop s a 0 0 [] None = (map word_of_nat pre @ [NUL], Some [NUL])"
      by (simp add: rb)
    have small: "\<forall>v\<in>set pre. v < 256" by (simp add: pre_def payload_byte_bound)
    define M :: jsstring where "M = map word_of_nat pre @ [NUL]"
    have chk: "(str_at M 0 = Some (of_char CHR ''s'') \<and> str_at M 1 = Some (of_char CHR ''t'')
        \<and> str_at M 2 = Some (of_char CHR ''g'')) \<longleftrightarrow> prefix [115, 116, 103] pre"
      unfolding M_def by (rule stg_check [OF small])
    have dr: "copy_from M 3 [] = map word_of_nat (drop 3 pre) @ [NUL]"
      if "prefix [115, 116, 103] pre"
      using that by (auto simp add: M_def copy_from_eq prefix_def)
    have "unhide s p = (if prefix [115, 116, 103] pre then Inr (copy_from M 3 [])
        else Inl ''STEG_NO_MSG: image does not have a message!'')"
      unfolding unhide_def a_def [symmetric] loop M_def [symmetric] Let_def prod.case chk
      by simp
    then show ?thesis
      unfolding a_def [symmetric] buf_def [symmetric] Let_def tw
      using True dr by simp
  qed
qed

section \<open>The write bit-mapping\<close>

lemma clear_mask_eq: "clear_mask = push_bit 1 (mask 8)"
  by (simp add: clear_mask_def mask_eq_exp_minus_1)

lemma clear_mask_val: "clear_mask = 510"
  by (simp add: clear_mask_def)

lemma is_even_bit: "is_even (Some b) \<longleftrightarrow> \<not> bit b 0"
proof -
  have "bit b 0 \<longleftrightarrow> bit (unat b) 0" by (simp add: bit_unsigned_iff)
  then show ?thesis by (simp add: is_even_def bit_0 even_iff_mod_2_eq_zero)
qed

lemma bit_mask8_double: "bit (mask 8 * 2 :: 32 word) n \<longleftrightarrow> 0 < n \<and> n < 9"
proof -
  have "bit (2 * mask 8 :: 32 word) n \<longleftrightarrow> 0 < n \<and> n < 9"
    by (cases n) (auto simp add: bit_double_iff bit_mask_iff)
  then show ?thesis by (subst mult.commute)
qed

lemma bit_mask7_double: "bit (mask 7 * 2 :: pixel) n \<longleftrightarrow> 0 < n \<and> n < 8"
proof -
  have "bit (2 * mask 7 :: pixel) n \<longleftrightarrow> 0 < n \<and> n < 8"
    by (cases n) (auto simp add: bit_double_iff bit_mask_iff)
  then show ?thesis by (subst mult.commute)
qed

lemma bit_set_lsb: "bit (set_lsb b) n \<longleftrightarrow> n = 0 \<or> bit b n"
  by (auto simp add: set_lsb_def bit_simps dest: bit_imp_le_length)

lemma bit_clear_lsb: "bit (clear_lsb b) n \<longleftrightarrow> n \<noteq> 0 \<and> bit b n"
  by (cases "n = 0")
    (auto simp add: clear_lsb_def clear_mask_eq bit_simps bit_mask8_double dest: bit_imp_le_length)

lemma set_lsb_eq: "set_lsb b = b OR 1"
  by (rule bit_word_eqI) (auto simp add: bit_set_lsb bit_simps)

lemma clear_lsb_eq: "clear_lsb b = b AND 254"
proof (rule bit_word_eqI)
  fix n
  have "(254 :: pixel) = mask 7 * 2" by (simp add: mask_eq_exp_minus_1)
  then have "bit (254 :: pixel) n \<longleftrightarrow> 0 < n \<and> n < 8" by (simp only: bit_mask7_double)
  then show "bit (clear_lsb b) n \<longleftrightarrow> bit (b AND 254) n"
    by (cases "n = 0") (auto simp add: bit_clear_lsb bit_and_iff dest: bit_imp_le_length)
qed

lemma drop_bit_set_lsb: "drop_bit 1 (set_lsb b) = drop_bit 1 b"
  by (rule bit_word_eqI) (simp add: bit_simps bit_set_lsb)

lemma drop_bit_clear_lsb: "drop_bit 1 (clear_lsb b) = drop_bit 1 b"
  by (rule bit_word_eqI) (simp add: bit_simps bit_clear_lsb)

lemma set_lsb_odd: "bit b 0 \<Longrightarrow> set_lsb b = b"
  by (rule bit_word_eqI) (auto simp add: bit_set_lsb)

lemma clear_lsb_even:
  assumes "\<not> bit b 0"
  shows "clear_lsb b = b"
proof (rule bit_word_eqI)
  fix n
  show "bit (clear_lsb b) n \<longleftrightarrow> bit b n"
    using assms by (cases "n = 0") (simp_all add: bit_clear_lsb)
qed

lemma write_bit_eq:
  "write_bit a bin (s, c) j = (s[a := (s ! a)[c := embed_px (str_at bin j) (s ! a ! c)]], c + 1)"
proof (cases "c < length (s ! a)")
  case False
  then have "(s ! a)[c := v] = s ! a" for v by (simp add: list_update_beyond not_less)
  with False show ?thesis by (simp add: write_bit_def px_get_def px_set_def is_even_def)
next
  case True
  show ?thesis
  proof (cases "bit (s ! a ! c) 0")
    case odd: True
    then have "set_lsb (s ! a ! c) = s ! a ! c" by (rule set_lsb_odd)
    with True odd show ?thesis
      by (simp add: write_bit_def px_get_def px_set_def is_even_bit embed_px_def to_int32_def
          clear_lsb_def)
  next
    case even: False
    then have "clear_lsb (s ! a ! c) = s ! a ! c" by (rule clear_lsb_even)
    with True even show ?thesis
      by (simp add: write_bit_def px_get_def px_set_def is_even_bit embed_px_def to_int32_def
          set_lsb_def)
  qed
qed

lemma write_bits_eq:
  assumes "a < length s"
  shows "foldl (write_bit a bin) (s, c) [0..<n] =
     (s[a := map (\<lambda>k. if c \<le> k \<and> k < c + n then embed_px (str_at bin (k - c)) (s ! a ! k)
                       else s ! a ! k) [0..<length (s ! a)]], c + n)"
proof (induction n)
  case 0
  have "map (\<lambda>k. if c \<le> k \<and> k < c + 0 then embed_px (str_at bin (k - c)) (s ! a ! k)
                  else s ! a ! k) [0..<length (s ! a)] = s ! a"
    by (rule nth_equalityI) auto
  then show ?case by simp
next
  case (Suc n)
  let ?buf = "s ! a"
  let ?b1 = "map (\<lambda>k. if c \<le> k \<and> k < c + n then embed_px (str_at bin (k - c)) (?buf ! k)
                       else ?buf ! k) [0..<length ?buf]"
  let ?b2 = "map (\<lambda>k. if c \<le> k \<and> k < c + Suc n then embed_px (str_at bin (k - c)) (?buf ! k)
                       else ?buf ! k) [0..<length ?buf]"
  have step: "?b1[c + n := embed_px (str_at bin n) (?b1 ! (c + n))] = ?b2"
  proof (rule nth_equalityI)
    show "length (?b1[c + n := embed_px (str_at bin n) (?b1 ! (c + n))]) = length ?b2"
      by simp
  next
    fix k
    assume "k < length (?b1[c + n := embed_px (str_at bin n) (?b1 ! (c + n))])"
    then have k: "k < length ?buf" by simp
    show "?b1[c + n := embed_px (str_at bin n) (?b1 ! (c + n))] ! k = ?b2 ! k"
    proof (cases "k = c + n")
      case True
      then show ?thesis using k by simp
    next
      case False
      then have "(c \<le> k \<and> k < c + Suc n) = (c \<le> k \<and> k < c + n)" by arith
      with False k show ?thesis by simp
    qed
  qed
  have "foldl (write_bit a bin) (s, c) [0..<Suc n] = write_bit a bin (s[a := ?b1], c + n) n"
    by (simp add: Suc.IH)
  also have "\<dots> = (s[a := ?b1[c + n := embed_px (str_at bin n) (?b1 ! (c + n))]], c + Suc n)"
    using assms by (simp add: write_bit_eq)
  finally show ?case by (simp only: step)
qed

lemma embed_from_done:
  assumes "length msg + 4 \<le> i"
  shows "embed_from msg i buf = buf"
proof (rule nth_equalityI)
  show "length (embed_from msg i buf) = length buf"
    by (simp add: embed_from_def)
next
  fix k
  assume "k < length (embed_from msg i buf)"
  then have "k < length buf" by (simp add: embed_from_def)
  moreover have "\<not> (8 * i \<le> k \<and> k < 8 * (length msg + 4))"
    using assms by arith
  ultimately show "embed_from msg i buf ! k = buf ! k"
    by (auto simp add: embed_from_def)
qed

lemma hide_loop_eq:
  assumes "a < length s"
  shows "hide_loop a msg s i (8 * i) = s[a := embed_from msg i (s ! a)]"
  using assms
proof (induction "length msg + 4 - i" arbitrary: i s)
  case 0
  then have "length msg + 4 \<le> i" by simp
  then show ?case
    by (subst hide_loop.simps) (simp add: embed_from_done)
next
  case (Suc d)
  then have lt: "i < length msg + 4" by simp
  let ?buf = "s ! a"
  let ?b1 = "map (\<lambda>k. if 8 * i \<le> k \<and> k < 8 * i + 8
                       then embed_px (str_at (binOfCh msg i) (k - 8 * i)) (?buf ! k)
                       else ?buf ! k) [0..<length ?buf]"
  have "hide_loop a msg s i (8 * i) = hide_loop a msg (s[a := ?b1]) (i + 1) (8 * (i + 1))"
    using lt Suc.prems by (subst hide_loop.simps) (simp add: write_bits_eq add.commute)
  also have "\<dots> = (s[a := ?b1])[a := embed_from msg (i + 1) ((s[a := ?b1]) ! a)]"
    using Suc.hyps(2) Suc.prems by (intro Suc.hyps(1)) simp_all
  also have "\<dots> = s[a := embed_from msg (i + 1) ?b1]"
    using Suc.prems by simp
  also have "embed_from msg (i + 1) ?b1 = embed_from msg i ?buf"
  proof (rule nth_equalityI)
    show "length (embed_from msg (i + 1) ?b1) = length (embed_from msg i ?buf)"
      by (simp add: embed_from_def)
  next
    fix k
    assume "k < length (embed_from msg (i + 1) ?b1)"
    then have k: "k < length ?buf" by (simp add: embed_from_def)
    have dm: "k div 8 = i \<and> k mod 8 = k - 8 * i" if "8 * i \<le> k" "k < 8 * i + 8"
    proof -
      from that obtain j where j: "k = 8 * i + j" "j < 8"
        using le_Suc_ex [of "8 * i" k] by auto
      then show ?thesis by simp
    qed
    have up: "8 * i + 8 \<le> 8 * (length msg + 4)" using lt by simp
    consider (lo) "k < 8 * i" | (mid) "8 * i \<le> k" "k < 8 * i + 8" | (hi) "8 * i + 8 \<le> k"
      by linarith
    then show "embed_from msg (i + 1) ?b1 ! k = embed_from msg i ?buf ! k"
    proof cases
      case lo
      then show ?thesis using k by (simp add: embed_from_def)
    next
      case mid
      with dm have "k div 8 = i" "k mod 8 = k - 8 * i" by simp_all
      then show ?thesis using k mid up by (simp add: embed_from_def)
    next
      case hi
      then show ?thesis using k by (simp add: embed_from_def)
    qed
  qed
  finally show ?case .
qed

lemma magic_bytes: "map unat STEG_MAGIC = [115, 116, 103]"
  by (simp add: STEG_MAGIC_def js_str_def)

section \<open>Properties of unhide\<close>

text \<open>
  C5 (missing-terminator detection). For every image, \<open>unhide\<close> fails with the
  \<open>STEG_BAD_MSG\<close> error exactly when no payload byte decoded from the pixel buffer by
  the read bit-mapping, eight consecutive pixel bytes per payload byte, is NUL: the
  buffer is exhausted without a terminator.
\<close>

theorem unhide_bad_msg_iff:
  "unhide s p = Inl ''STEG_BAD_MSG: bad message!'' \<longleftrightarrow> 0 \<notin> set (payload (s ! pixelBytes p))"
  by (simp add: unhide_eq Let_def)

theorem unhide_bad_msg_iff_witness:
  "unhide [[1, 1, 1, 1, 1, 1, 1, 1, 0, 0, 0]] (image_at 0) = Inl ''STEG_BAD_MSG: bad message!''
   \<and> unhide [[0, 0, 0, 0, 0, 0, 0, 0, 1, 1, 1]] (image_at 0) \<noteq> Inl ''STEG_BAD_MSG: bad message!''"
  using unhide_bad_msg_iff [of "[[1, 1, 1, 1, 1, 1, 1, 1, 0, 0, 0]]" "image_at 0"]
    unhide_bad_msg_iff [of "[[0, 0, 0, 0, 0, 0, 0, 0, 1, 1, 1]]" "image_at 0"]
  by (simp add: image_at_def payload_def payload_byte_def bits_val_def upt_8)

text \<open>
  C6 (missing-magic detection). When a NUL payload byte is decoded before the pixel
  buffer is exhausted and the payload bytes decoded before that terminator do not
  begin with the magic token \<open>stg\<close>, \<open>unhide\<close> fails with the \<open>STEG_NO_MSG\<close> error.
\<close>

theorem unhide_no_msg:
  assumes "0 \<in> set (payload (s ! pixelBytes p))"
    and "\<not> prefix (map unat STEG_MAGIC) (takeWhile (\<lambda>v. v \<noteq> 0) (payload (s ! pixelBytes p)))"
  shows "unhide s p = Inl ''STEG_NO_MSG: image does not have a message!''"
  using assms by (simp add: unhide_eq Let_def magic_bytes)

theorem unhide_no_msg_witness:
  "unhide [[0, 1, 1, 1, 0, 0, 1, 1,  0, 0, 0, 0, 0, 0, 0, 0,  1]] (image_at 0)
     = Inl ''STEG_NO_MSG: image does not have a message!''"
  by (rule unhide_no_msg) code_simp+

text \<open>
  C10 (empty-buffer extraction). On an image whose pixel buffer is empty, \<open>unhide\<close>
  returns the \<open>STEG_BAD_MSG\<close> error, not a message and not another error.
\<close>

theorem unhide_empty_buffer:
  "s ! pixelBytes p = [] \<Longrightarrow> unhide s p = Inl ''STEG_BAD_MSG: bad message!''"
  by (simp add: unhide_eq payload_def)

theorem unhide_empty_buffer_witness:
  "unhide [[]] (image_at 0) = Inl ''STEG_BAD_MSG: bad message!''"
  by (rule unhide_empty_buffer) (simp add: image_at_def)

section \<open>Properties of hide\<close>

lemma read_byte_buf: "read_byte s a c = buf_byte (s ! a) c"
  by (simp add: buf_byte_def read_byte_def read_bits_def px_get_def)

lemma buf_byte_bound: "buf_byte buf c < 256"
  by (simp add: buf_byte_def read_byte_bound)

lemma buf_byte_payload: "8 * k + 8 \<le> length buf \<Longrightarrow> buf_byte buf (8 * k) = payload_byte buf k"
  using read_byte_payload [of k "[buf]" 0] by (simp add: buf_byte_def)

lemma STEG_MAGIC_val: "STEG_MAGIC = [115, 116, 103]"
  by (simp add: STEG_MAGIC_def js_str_def)

lemma stg_control_magic:
  "stg_control s a = STEG_MAGIC \<longleftrightarrow> map (buf_byte (s ! a)) [0, 8, 16] = [115, 116, 103]"
  using word16_of_byte_inj [of "buf_byte (s ! a) 0" 115]
    word16_of_byte_inj [of "buf_byte (s ! a) 8" 116]
    word16_of_byte_inj [of "buf_byte (s ! a) 16" 103]
  by (simp add: stg_control_eq STEG_MAGIC_val read_byte_buf buf_byte_bound)

lemma hide_eq:
  "hide s p m =
     (let buf = s ! pixelBytes p in
      if length buf < length (framed m) then (s @ [buf], Inl ''STEG_TOO_BIG error!'')
      else if map (buf_byte buf) [0, 8, 16] = [115, 116, 103]
      then (s @ [buf], Inl ''STEG_MSG: image already contains a hidden message!'')
      else (s @ [embed_from (framed m) 0 buf], Inr (p\<lparr>pixelBytes := length s\<rparr>)))"
proof -
  have loop: "hide_loop (length s) msg (s @ [buf]) 0 0 = s @ [embed_from msg 0 buf]" for msg buf
    using hide_loop_eq [of "length s" "s @ [buf]" msg 0] by simp
  show ?thesis
    by (simp add: hide_def Ppm_copy_def Let_def px_length_def stg_control_magic loop framed_def)
qed

lemma length_framed: "length (framed m) = length m + 4"
  by (simp add: framed_def STEG_MAGIC_val)

lemma hide_too_big_iff:
  "snd (hide s p m) = Inl ''STEG_TOO_BIG error!'' \<longleftrightarrow> length (s ! pixelBytes p) < length (framed m)"
  by (simp add: hide_eq Let_def)

lemma hide_stg_msg_iff:
  "\<not> length (s ! pixelBytes p) < length (framed m) \<Longrightarrow>
     snd (hide s p m) = Inl ''STEG_MSG: image already contains a hidden message!''
       \<longleftrightarrow> map (buf_byte (s ! pixelBytes p)) [0, 8, 16] = [115, 116, 103]"
  by (simp add: hide_eq Let_def)

lemma buf_byte_zeros: "c + 8 \<le> n \<Longrightarrow> buf_byte (replicate n 0) c = 0"
  by (simp add: buf_byte_def read_byte_def read_bits_def upt_8 px_get_def is_even_def bits_val_def)

lemma buf_byte_ones: "c + 8 \<le> n \<Longrightarrow> buf_byte (replicate n 1) c = 255"
  by (simp add: buf_byte_def read_byte_def read_bits_def upt_8 px_get_def is_even_def bits_val_def)

text \<open>
  C3 (capacity rule). The claim has \<open>hide\<close> fail with \<open>STEG_TOO_BIG\<close> exactly when
  8 times the length of the framed message exceeds the length of the pixel buffer. The
  test of line 70 compares the length of the framed message itself, in characters, with
  the length of the buffer (\<open>hide_too_big_iff\<close>). On a buffer of 48 pixel bytes and the
  message \<open>hello\<close>, whose framed message of 9 characters needs 72 pixel bytes, \<open>hide\<close>
  does not fail: it returns an image.
\<close>

theorem hide_capacity_counts_bytes:
  "length (replicate 48 (0 :: pixel)) < 8 * length (framed (js_str ''hello''))
   \<and> snd (hide [replicate 48 0] (image_at 0) (js_str ''hello'')) = Inr (image_at 1)"
  by (simp add: hide_eq Let_def length_framed image_at_def buf_byte_zeros js_str_def)

lemma take3_payload:
  assumes "24 \<le> length buf"
  shows "take 3 (payload buf) = map (buf_byte buf) [0, 8, 16]"
proof -
  have "3 \<le> length buf div 8" using assms by simp
  then have "take 3 [0..<length buf div 8] = [0..<3]" by (simp add: take_upt)
  also have "[0..<3] = [0, 1, 2]" by (simp add: upt_rec)
  finally have "take 3 (payload buf) = map (payload_byte buf) [0, 1, 2]"
    by (simp add: payload_def take_map)
  moreover have "buf_byte buf (8 * k) = payload_byte buf k" if "k < 3" for k
    using that assms by (intro buf_byte_payload) simp
  from this [of 0] this [of 1] this [of 2]
  have "map (buf_byte buf) [0, 8, 16] = map (payload_byte buf) [0, 1, 2]" by simp
  ultimately show ?thesis by simp
qed

text \<open>
  C4 (already-hidden detection). For a message that passes the capacity check, one
  pixel byte per bit of the framed message, \<open>hide\<close> fails with the \<open>STEG_MSG\<close> error
  exactly when the first three payload bytes that the read bit-mapping decodes from the
  source image's pixel bytes are the magic token; and when it does, the store after the
  call is the store before it followed by an unmodified copy of the source buffer: no
  pixel byte of any buffer has been modified.
\<close>

theorem hide_already_hidden:
  assumes "8 * length (framed m) \<le> length (s ! pixelBytes p)"
  shows "(snd (hide s p m) = Inl ''STEG_MSG: image already contains a hidden message!''
            \<longleftrightarrow> take 3 (payload (s ! pixelBytes p)) = map unat STEG_MAGIC)
         \<and> (snd (hide s p m) = Inl ''STEG_MSG: image already contains a hidden message!''
            \<longrightarrow> fst (hide s p m) = s @ [s ! pixelBytes p])"
proof -
  have "24 \<le> length (s ! pixelBytes p)" "\<not> length (s ! pixelBytes p) < length (framed m)"
    using assms by (simp_all add: length_framed)
  then show ?thesis
    by (simp add: hide_eq Let_def take3_payload magic_bytes)
qed

theorem hide_already_hidden_witness:
  "snd (hide [[0, 1, 1, 1, 0, 0, 1, 1,  0, 1, 1, 1, 0, 1, 0, 0,  0, 1, 1, 0, 0, 1, 1, 1,
               0, 0, 0, 0, 0, 0, 0, 0]] (image_at 0) [])
     = Inl ''STEG_MSG: image already contains a hidden message!''
   \<and> fst (hide [[0, 1, 1, 1, 0, 0, 1, 1,  0, 1, 1, 1, 0, 1, 0, 0,  0, 1, 1, 0, 0, 1, 1, 1,
               0, 0, 0, 0, 0, 0, 0, 0]] (image_at 0) [])
     = [[0, 1, 1, 1, 0, 0, 1, 1,  0, 1, 1, 1, 0, 1, 0, 0,  0, 1, 1, 0, 0, 1, 1, 1,
         0, 0, 0, 0, 0, 0, 0, 0],
        [0, 1, 1, 1, 0, 0, 1, 1,  0, 1, 1, 1, 0, 1, 0, 0,  0, 1, 1, 0, 0, 1, 1, 1,
         0, 0, 0, 0, 0, 0, 0, 0]]"
proof -
  let ?buf = "[0, 1, 1, 1, 0, 0, 1, 1,  0, 1, 1, 1, 0, 1, 0, 0,  0, 1, 1, 0, 0, 1, 1, 1,
               0, 0, 0, 0, 0, 0, 0, 0] :: pixel list"
  have cap: "8 * length (framed []) \<le> length ([?buf] ! pixelBytes (image_at 0))"
    by (simp add: length_framed image_at_def)
  have stg: "take 3 (payload ([?buf] ! pixelBytes (image_at 0))) = map unat STEG_MAGIC"
    by code_simp
  have sel: "[?buf] ! pixelBytes (image_at 0) = ?buf"
    by (simp add: image_at_def)
  show ?thesis
    using hide_already_hidden [OF cap] stg by (simp only: sel) simp
qed

text \<open>
  C8 (error-prefix contract). Every error text that \<open>hide\<close> returns begins with
  \<open>STEG_TOO_BIG\<close> or \<open>STEG_MSG\<close>, every error text that \<open>unhide\<close> returns begins
  with \<open>STEG_NO_MSG\<close> or \<open>STEG_BAD_MSG\<close>, and in each case more text follows the
  token.
\<close>

theorem error_texts_prefixed:
  "(snd (hide s p m) = Inl e \<longrightarrow> strict_prefix ''STEG_TOO_BIG'' e \<or> strict_prefix ''STEG_MSG'' e)
   \<and> (unhide s' p' = Inl e' \<longrightarrow> strict_prefix ''STEG_NO_MSG'' e' \<or> strict_prefix ''STEG_BAD_MSG'' e')"
  by (auto simp add: hide_eq unhide_eq Let_def split: if_splits)

theorem error_texts_prefixed_witness:
  "snd (hide [[]] (image_at 0) []) = Inl ''STEG_TOO_BIG error!''
   \<and> strict_prefix ''STEG_TOO_BIG'' ''STEG_TOO_BIG error!''
   \<and> unhide [[]] (image_at 0) = Inl ''STEG_BAD_MSG: bad message!''
   \<and> strict_prefix ''STEG_BAD_MSG'' ''STEG_BAD_MSG: bad message!''"
proof -
  have h: "snd (hide [[]] (image_at 0) []) = Inl ''STEG_TOO_BIG error!''"
    by (simp add: hide_eq length_framed image_at_def)
  have u: "unhide [[]] (image_at 0) = Inl ''STEG_BAD_MSG: bad message!''"
    by (simp add: unhide_eq payload_def image_at_def)
  show ?thesis
    using error_texts_prefixed [of "[[]]" "image_at 0" "[]" "''STEG_TOO_BIG error!''"
        "[[]]" "image_at 0" "''STEG_BAD_MSG: bad message!''"] h u
    by simp
qed

lemma length_embed_from: "length (embed_from msg i buf) = length buf"
  by (simp add: embed_from_def)

text \<open>
  C9 (source preservation). Whatever \<open>hide\<close> returns, every buffer that the store held
  before the call is unchanged after it, the source image's buffer among them. On
  success the returned image has a buffer of its own at a fresh address, the metadata
  (header, comments, resolution, color depth) of the source, and a pixel buffer of
  exactly the length of the source's.
\<close>

theorem hide_preserves_source:
  assumes "pixelBytes p < length s" and "hide s p m = (s', r)"
  shows "take (length s) s' = s \<and> s' ! pixelBytes p = s ! pixelBytes p
         \<and> (r = Inr p' \<longrightarrow>
              pixelBytes p' = length s \<and> pixelBytes p' \<noteq> pixelBytes p
              \<and> header p' = header p \<and> comments p' = comments p
              \<and> resolution p' = resolution p \<and> colorDepth p' = colorDepth p
              \<and> length (s' ! pixelBytes p') = length (s ! pixelBytes p))"
  using assms
  by (auto simp add: hide_eq Let_def nth_append length_embed_from split: if_splits)

theorem hide_preserves_source_witness:
  "take 1 (fst (hide [replicate 48 0] (image_at 0) [])) = [replicate 48 0]
   \<and> snd (hide [replicate 48 0] (image_at 0) []) = Inr (image_at 1)
   \<and> length (fst (hide [replicate 48 0] (image_at 0) []) ! 1) = 48"
proof -
  have v: "pixelBytes (image_at 0) < length [replicate 48 (0 :: pixel)]"
    by (simp add: image_at_def)
  have r: "snd (hide [replicate 48 0] (image_at 0) []) = Inr (image_at 1)"
    by (simp add: hide_eq Let_def length_framed image_at_def buf_byte_zeros)
  show ?thesis
    using hide_preserves_source [OF v surjective_pairing, of "[]" "image_at 1"] r
    by (simp add: image_at_def)
qed

lemma embed_from_beyond:
  "8 * (length msg + 4) \<le> k \<Longrightarrow> k < length buf \<Longrightarrow> embed_from msg 0 buf ! k = buf ! k"
  by (simp add: embed_from_def)

lemma drop_bit_embed_px: "drop_bit 1 (embed_px ch b) = drop_bit 1 b"
  using drop_bit_set_lsb [of b] drop_bit_clear_lsb [of b] by (auto simp add: embed_px_def)

lemma embed_from_high_bits:
  assumes "k < length buf"
  shows "drop_bit 1 (embed_from msg 0 buf ! k) = drop_bit 1 (buf ! k)"
proof -
  have "embed_from msg 0 buf ! k = buf ! k
      \<or> embed_from msg 0 buf ! k = embed_px (str_at (binOfCh msg (k div 8)) (k mod 8)) (buf ! k)"
    using assms by (simp add: embed_from_def)
  then show ?thesis by (auto simp only: drop_bit_embed_px)
qed

lemma binOfCh_past_end: "length msg \<le> i \<Longrightarrow> binOfCh msg i = ''00000NaN''"
  by (simp add: binOfCh_def charCodeAt_def toString_def parseInt_def is_digit_def digit_val_def
      substr_last_def)

text \<open>
  C2 (prefix-only modification). The claim has every pixel byte at index \<open>8 * L\<close> or
  beyond, \<open>L\<close> the length of the framed message, identical to the source's. The loop
  of line 103 runs for \<open>msg.length + 4\<close> characters of the already framed message, four
  more than it has; for these \<open>binOfCh\<close> is \<open>00000NaN\<close> (\<open>binOfCh_past_end\<close>), whose
  five zeros clear the least significant bits of further pixel bytes. On a buffer of 48
  pixel bytes of value 1 and the empty message (\<open>8 * L = 32\<close>), \<open>hide\<close> succeeds and
  pixel byte 32 of the result is 0, not 1.
\<close>

theorem hide_writes_past_framed_message:
  "8 * length (framed []) = 32
   \<and> snd (hide [replicate 48 1] (image_at 0) []) = Inr (image_at 1)
   \<and> replicate 48 (1 :: pixel) ! 32 = 1
   \<and> fst (hide [replicate 48 1] (image_at 0) []) ! 1 ! 32 = 0"
proof -
  have "embed_from (framed []) 0 (replicate 48 1) ! 32 = clear_lsb 1"
    by (simp add: embed_from_def length_framed binOfCh_past_end str_at_def embed_px_def)
  then show ?thesis
    by (simp add: hide_eq Let_def length_framed image_at_def buf_byte_ones clear_lsb_eq)
qed

section \<open>hide followed by hide or unhide\<close>

lemma digit_char_of_bool: "digit_char (of_bool b) = bit_char b"
  by (cases b) (simp_all add: digit_char_def bit_char_def)

lemma digits_of_2_bits:
  "\<exists>bs. digits_of 2 v = map bit_char bs \<and> bits_val bs = v \<and> bs \<noteq> []
        \<and> 2 ^ length bs \<le> 2 * max v 1"
proof (induction v rule: less_induct)
  case (less v)
  show ?case
  proof (cases "v < 2")
    case True
    then have v: "v = of_bool (v = 1)" by auto
    have "digits_of 2 v = [digit_char v]"
      using True by (subst digits_of.simps) simp
    also have "\<dots> = map bit_char [v = 1]"
      by (subst v) (simp add: digit_char_of_bool)
    finally have "digits_of 2 v = map bit_char [v = 1]" .
    moreover have "bits_val [v = 1] = v" using True by (auto simp add: bits_val_def)
    ultimately show ?thesis by (intro exI [of _ "[v = 1]"]) simp
  next
    case False
    then have "v div 2 < v" by simp
    from less.IH [OF this] obtain bs where bs: "digits_of 2 (v div 2) = map bit_char bs"
      "bits_val bs = v div 2" "bs \<noteq> []" "2 ^ length bs \<le> 2 * max (v div 2) 1"
      by blast
    have m: "v mod 2 = of_bool (odd v)" by (simp add: mod2_eq_if)
    have "digits_of 2 v = digits_of 2 (v div 2) @ [digit_char (v mod 2)]"
      using False by (subst digits_of.simps) simp
    also have "\<dots> = map bit_char (bs @ [odd v])"
      by (simp add: bs(1) m digit_char_of_bool)
    finally have d: "digits_of 2 v = map bit_char (bs @ [odd v])" .
    have val: "bits_val (bs @ [odd v]) = v"
      by (simp add: bits_val_snoc bs(2) m [symmetric])
    have "max (v div 2) 1 = v div 2" using False by simp
    with bs(4) have "2 ^ length bs \<le> 2 * (v div 2)" by simp
    also have "\<dots> \<le> v" by simp
    finally have "2 ^ length (bs @ [odd v]) \<le> 2 * max v 1" by simp
    with d val show ?thesis by (intro exI [of _ "bs @ [odd v]"]) simp
  qed
qed

lemma bits_val_replicate_False: "bits_val (replicate k False @ bs) = bits_val bs"
proof -
  have "foldl (\<lambda>acc b. 2 * acc + of_bool b) 0 (replicate k False) = (0::nat)"
    by (induction k) simp_all
  then show ?thesis by (simp add: bits_val_def)
qed

lemma zeros8: "''00000000'' = map bit_char (replicate 8 False)"
  by (simp add: bit_char_def eval_nat_numeral)

lemma binOfCh_byte:
  assumes "i < length msg" "unat (msg ! i) < 256"
  shows "\<exists>bits. binOfCh msg i = map bit_char bits \<and> length bits = 8
           \<and> bits_val bits = unat (msg ! i)"
proof -
  let ?v = "unat (msg ! i)"
  obtain bs where bs: "digits_of 2 ?v = map bit_char bs" "bits_val bs = ?v" "bs \<noteq> []"
    "2 ^ length bs \<le> 2 * max ?v 1"
    using digits_of_2_bits [of ?v] by blast
  have "2 * max ?v 1 < 2 ^ 9" using assms(2) by simp
  with bs(4) have p9: "(2::nat) ^ length bs < 2 ^ 9" by (rule le_less_trans)
  have "length bs < 9"
  proof (rule power_less_imp_less_exp)
    show "(1::nat) < 2" by simp
    show "(2::nat) ^ length bs < 2 ^ 9" by (rule p9)
  qed
  then have len: "length bs \<le> 8" by simp
  let ?bits = "replicate (8 - length bs) False @ bs"
  have "binOfCh msg i = substr_last (''00000000'' @ digits_of 2 ?v) 8"
    using assms(1) parseInt_toString [of 16 ?v]
    by (simp add: binOfCh_def charCodeAt_def toString_def)
  also have "\<dots> = substr_last (map bit_char (replicate 8 False @ bs)) 8"
    by (simp only: zeros8 bs(1) map_append)
  also have "\<dots> = map bit_char ?bits"
    using len by (simp add: substr_last_def drop_map)
  finally have "binOfCh msg i = map bit_char ?bits" .
  moreover have "length ?bits = 8" using len by simp
  moreover have "bits_val ?bits = ?v" by (simp add: bits_val_replicate_False bs(2))
  ultimately show ?thesis by blast
qed

lemma odd_unat_bit: "odd (unat (b :: pixel)) \<longleftrightarrow> bit b 0"
  using is_even_bit [of b] by (simp add: is_even_def even_iff_mod_2_eq_zero)

lemma bit_embed_px: "bit (embed_px (Some (bit_char b)) x) 0 \<longleftrightarrow> b"
  by (cases b) (simp_all add: embed_px_def bit_char_def bit_set_lsb bit_clear_lsb)

lemma embed_from_nth:
  "k < length buf \<Longrightarrow> embed_from msg 0 buf ! k =
     (if k < 8 * (length msg + 4)
      then embed_px (str_at (binOfCh msg (k div 8)) (k mod 8)) (buf ! k) else buf ! k)"
  by (simp add: embed_from_def)

lemma payload_byte_embed:
  assumes "i < length msg" "unat (msg ! i) < 256" "8 * i + 8 \<le> length buf"
  shows "payload_byte (embed_from msg 0 buf) i = unat (msg ! i)"
proof -
  obtain bits where bits: "binOfCh msg i = map bit_char bits" "length bits = 8"
    "bits_val bits = unat (msg ! i)"
    using binOfCh_byte [OF assms(1,2)] by blast
  have "odd (unat (embed_from msg 0 buf ! (8 * i + j))) = bits ! j" if "j < 8" for j
  proof -
    have k: "8 * i + j < length buf" "8 * i + j < 8 * (length msg + 4)"
      using that assms(1,3) by simp_all
    have dm: "(8 * i + j) div 8 = i" "(8 * i + j) mod 8 = j" using that by simp_all
    have "embed_from msg 0 buf ! (8 * i + j)
        = embed_px (Some (bit_char (bits ! j))) (buf ! (8 * i + j))"
      using that bits(2) by (simp only: embed_from_nth [OF k(1)] k(2) dm if_True bits(1))
        (simp add: str_at_def)
    then show ?thesis by (simp add: odd_unat_bit bit_embed_px)
  qed
  then have "map (\<lambda>j. odd (unat (embed_from msg 0 buf ! (8 * i + j)))) [0..<8]
      = map (\<lambda>j. bits ! j) [0..<8]"
    by simp
  also have "\<dots> = bits" using bits(2) map_nth [of bits] by simp
  finally show ?thesis by (simp add: payload_byte_def bits(3))
qed

lemma framed_nth_magic:
  "framed m ! 0 = 115" "framed m ! Suc 0 = 116" "framed m ! 2 = 103"
  by (simp_all add: framed_def STEG_MAGIC_val)

lemma stg_after_embed:
  assumes "24 \<le> length buf"
  shows "map (buf_byte (embed_from (framed m) 0 buf)) [0, 8, 16] = [115, 116, 103]"
proof -
  let ?b = "embed_from (framed m) 0 buf"
  have len: "24 \<le> length ?b" using assms by (simp add: length_embed_from)
  have "payload_byte ?b 0 = 115" "payload_byte ?b 1 = 116" "payload_byte ?b 2 = 103"
    using assms payload_byte_embed [of 0 "framed m" buf] payload_byte_embed [of 1 "framed m" buf]
      payload_byte_embed [of 2 "framed m" buf]
    by (simp_all add: length_framed framed_nth_magic)
  then have "map (payload_byte ?b) [0, 1, 2] = [115, 116, 103]"
    by simp
  moreover have "buf_byte ?b (8 * k) = payload_byte ?b k" if "k < 3" for k
    using that len by (intro buf_byte_payload) simp
  from this [of 0] this [of 1] this [of 2]
  have "map (buf_byte ?b) [0, 8, 16] = map (payload_byte ?b) [0, 1, 2]" by simp
  ultimately show ?thesis by simp
qed

text \<open>
  C7 (idempotent rejection). When \<open>hide\<close> succeeds on a source image with a message
  that fits, one pixel byte per bit of its framed message, then \<open>hide\<close> on the image it
  returned, with any message that fits in turn, fails with the \<open>STEG_MSG\<close> error.
\<close>

theorem hide_twice_rejected:
  assumes "8 * length (framed m) \<le> length (s ! pixelBytes p)"
    and "hide s p m = (s', Inr p')"
    and "8 * length (framed m') \<le> length (s' ! pixelBytes p')"
  shows "snd (hide s' p' m') = Inl ''STEG_MSG: image already contains a hidden message!''"
proof -
  let ?buf = "s ! pixelBytes p"
  have big: "24 \<le> length ?buf" using assms(1) by (simp add: length_framed)
  from assms(2) have s': "s' = s @ [embed_from (framed m) 0 ?buf]"
    and p': "p' = p\<lparr>pixelBytes := length s\<rparr>"
    by (auto simp add: hide_eq Let_def split: if_splits)
  have sel: "s' ! pixelBytes p' = embed_from (framed m) 0 ?buf"
    by (simp add: s' p')
  have fits: "\<not> length (s' ! pixelBytes p') < length (framed m')"
    using assms(3) by simp
  have "buf_byte (s' ! pixelBytes p') 0 = 115 \<and> buf_byte (s' ! pixelBytes p') 8 = 116
      \<and> buf_byte (s' ! pixelBytes p') 16 = 103"
    using stg_after_embed [OF big, of m] by (simp add: sel)
  then show ?thesis
    using fits by (simp add: hide_eq [of s' p' m'] Let_def)
qed

theorem hide_twice_rejected_witness:
  "snd (hide (fst (hide [replicate 48 0] (image_at 0) [])) (image_at 1) [])
     = Inl ''STEG_MSG: image already contains a hidden message!''"
proof -
  have h1: "8 * length (framed []) \<le> length ([replicate 48 (0 :: pixel)] ! pixelBytes (image_at 0))"
    by (simp add: length_framed image_at_def)
  have r: "snd (hide [replicate 48 0] (image_at 0) []) = Inr (image_at 1)"
    by (simp add: hide_eq Let_def length_framed image_at_def buf_byte_zeros)
  have h2: "hide [replicate 48 0] (image_at 0) []
      = (fst (hide [replicate 48 0] (image_at 0) []), Inr (image_at 1))"
    by (rule prod_eqI) (simp_all only: fst_conv snd_conv r)
  have h3: "8 * length (framed [])
      \<le> length (fst (hide [replicate 48 0] (image_at 0) []) ! pixelBytes (image_at 1))"
    by (simp add: hide_eq Let_def length_framed image_at_def buf_byte_zeros length_embed_from)
  show ?thesis by (rule hide_twice_rejected [OF h1 h2 h3])
qed

lemma map_nth_upt: "map (\<lambda>k. f (xs ! k)) [0..<length xs] = map f xs"
  by (rule nth_equalityI) simp_all

lemma unhide_after_hide:
  assumes chars: "\<forall>c\<in>set m. c \<noteq> 0 \<and> unat c < 256"
    and fits: "8 * length (framed m) \<le> length (s ! pixelBytes p)"
    and ok: "hide s p m = (s', Inr p')"
  shows "unhide s' p' = Inr (m @ [NUL])"
proof -
  let ?buf = "s ! pixelBytes p"
  let ?b = "embed_from (framed m) 0 ?buf"
  define k0 where "k0 = length m + 3"
  from ok have sel: "s' ! pixelBytes p' = ?b"
    by (auto simp add: hide_eq Let_def split: if_splits)
  have len: "8 * (length m + 4) \<le> length ?b"
    using fits by (simp add: length_framed length_embed_from)
  have fr: "framed m = (STEG_MAGIC @ m) @ [NUL]" by (simp add: framed_def)
  have lenpre: "length (STEG_MAGIC @ m) = k0" by (simp add: k0_def STEG_MAGIC_val)
  have fr_nth: "framed m ! k = (STEG_MAGIC @ m) ! k" if "k < k0" for k
    unfolding fr by (rule nth_append_left) (simp only: lenpre that)
  have fr_k0: "framed m ! k0 = NUL"
    unfolding fr lenpre [symmetric] by (rule nth_append_length)
  have small: "unat (framed m ! k) < 256" if "k < length m + 4" for k
  proof -
    have "\<forall>c\<in>set (framed m). unat c < 256"
      using chars by (auto simp add: framed_def STEG_MAGIC_val NUL_def)
    moreover have "framed m ! k \<in> set (framed m)"
      using that by (intro nth_mem) (simp add: length_framed)
    ultimately show ?thesis by blast
  qed
  have pb: "payload_byte ?b k = unat (framed m ! k)" if "k < length m + 4" for k
    using that fits small [OF that]
    by (intro payload_byte_embed) (simp_all add: length_framed)
  have at_k0: "payload_byte ?b k0 = 0"
    using pb [of k0] by (simp add: fr_k0 NUL_def) (simp add: k0_def)
  have before: "\<forall>k<k0. payload_byte ?b k \<noteq> 0"
  proof (intro allI impI)
    fix k assume k: "k < k0"
    then have "framed m ! k = (STEG_MAGIC @ m) ! k"
      by (rule fr_nth)
    moreover have "(STEG_MAGIC @ m) ! k \<in> set (STEG_MAGIC @ m)"
      using k lenpre by (intro nth_mem) simp
    then have "(STEG_MAGIC @ m) ! k \<noteq> 0"
      using chars by (auto simp add: STEG_MAGIC_val)
    ultimately have "unat (framed m ! k) \<noteq> 0" by (simp add: unat_eq_0)
    then show "payload_byte ?b k \<noteq> 0"
      using pb [of k] k by (simp add: k0_def)
  qed
  have k0lt: "k0 < length ?b div 8" using len by (simp add: k0_def)
  have tw: "takeWhile (\<lambda>v. v \<noteq> 0) (payload ?b) = map (payload_byte ?b) [0..<k0]"
    unfolding payload_def using k0lt at_k0 before by (rule takeWhile_first_zero)
  have "map (payload_byte ?b) [0..<k0] = map (\<lambda>k. unat ((STEG_MAGIC @ m) ! k)) [0..<k0]"
  proof (rule map_cong [OF refl])
    fix k assume "k \<in> set [0..<k0]"
    then have k: "k < k0" by simp
    then show "payload_byte ?b k = unat ((STEG_MAGIC @ m) ! k)"
      using pb [of k] fr_nth [of k] by (simp add: k0_def)
  qed
  also have "\<dots> = map unat (STEG_MAGIC @ m)"
    unfolding lenpre [symmetric] by (rule map_nth_upt)
  finally have pre: "map (payload_byte ?b) [0..<k0] = [115, 116, 103] @ map unat m"
    by (simp add: STEG_MAGIC_val)
  have zero_in: "0 \<in> set (payload ?b)"
    using k0lt at_k0 by (force simp add: payload_def)
  have w_u: "map word_of_nat (map unat m) = m"
    by (simp add: map_idI)
  show ?thesis
    unfolding unhide_eq sel Let_def tw pre
    using zero_in w_u by simp
qed

text \<open>
  C1 (round trip). The claim has \<open>unhide\<close>, on the image that \<open>hide\<close> returned for
  a message \<open>m\<close>, return exactly \<open>m\<close>, without the terminating NUL. The loop of
  \<open>unhide\<close> appends every decoded character to \<open>message\<close>, the terminator too, and
  lines 187-189 copy everything from position 3 on: the result is \<open>m\<close> followed by
  NUL (\<open>unhide_after_hide\<close>, for every message of characters 1..255 that fits). On a
  buffer of 48 even pixel bytes and the message \<open>hi\<close>, which fits exactly, \<open>hide\<close>
  succeeds and \<open>unhide\<close> returns \<open>hi\<close> followed by NUL.
\<close>

theorem unhide_returns_terminator:
  "snd (hide [replicate 48 0] (image_at 0) (js_str ''hi'')) = Inr (image_at 1)
   \<and> unhide (fst (hide [replicate 48 0] (image_at 0) (js_str ''hi''))) (image_at 1)
       = Inr (js_str ''hi'' @ [NUL])
   \<and> js_str ''hi'' @ [NUL] \<noteq> js_str ''hi''"
proof -
  have chars: "\<forall>c\<in>set (js_str ''hi''). c \<noteq> 0 \<and> unat c < 256"
    by (simp add: js_str_def)
  have fits: "8 * length (framed (js_str ''hi''))
      \<le> length ([replicate 48 (0 :: pixel)] ! pixelBytes (image_at 0))"
    by (simp add: length_framed image_at_def js_str_def)
  have r: "snd (hide [replicate 48 0] (image_at 0) (js_str ''hi'')) = Inr (image_at 1)"
    by (simp add: hide_eq Let_def length_framed image_at_def buf_byte_zeros js_str_def)
  have "hide [replicate 48 0] (image_at 0) (js_str ''hi'')
      = (fst (hide [replicate 48 0] (image_at 0) (js_str ''hi'')), Inr (image_at 1))"
    by (rule prod_eqI) (simp_all only: fst_conv snd_conv r)
  from unhide_after_hide [OF chars fits this] r show ?thesis
    by simp
qed

end
